theory Spec2Isabelle
  imports Main
begin

section \<open>Dates, times and the calendar\<close>

text \<open>
  The evaluator of \<^verbatim>\<open>backtrader/timer.py\<close> (class \<^verbatim>\<open>Timer\<close>) works on Python's
  \<^verbatim>\<open>datetime\<close>, \<^verbatim>\<open>date\<close>, \<^verbatim>\<open>time\<close> and \<^verbatim>\<open>timedelta\<close> values and on the numeric
  timestamp of the platform (days since 0001-01-01, plus one, as a number).

  All of them are counted here in microseconds, the resolution of \<^verbatim>\<open>datetime\<close>:
  \<^item> a naive \<^verbatim>\<open>datetime\<close> is the integer \<open>ordinal * US_PER_DAY + time of day\<close>, where
    \<open>ordinal\<close> is Python's proleptic Gregorian ordinal (\<^verbatim>\<open>date.toordinal()\<close>, 1 for
    0001-01-01);
  \<^item> a \<^verbatim>\<open>date\<close> is its ordinal;
  \<^item> a \<^verbatim>\<open>time\<close> and a \<^verbatim>\<open>timedelta\<close> are numbers of microseconds;
  \<^item> the numeric timestamp is the same count in UTC, exactly: the rounding of the
    floating point representation is not part of this model.
  The upper end of Python's range (year 9999, \<^verbatim>\<open>OverflowError\<close>) is not modelled.
\<close>

type_synonym datetime = int
type_synonym date = int
type_synonym timeofday = int
type_synonym timedelta = int
type_synonym num = int

definition US_PER_DAY :: int where
  "US_PER_DAY = 86400000000"

text \<open>\<^verbatim>\<open>d.date()\<close> and \<^verbatim>\<open>datetime.combine(ddate, t)\<close>.\<close>

definition date_of :: "datetime \<Rightarrow> date" where
  "date_of d = d div US_PER_DAY"

definition combine :: "date \<Rightarrow> timeofday \<Rightarrow> datetime" where
  "combine ddate t = ddate * US_PER_DAY + t"

text \<open>\<^verbatim>\<open>date.min\<close> is 0001-01-01 (ordinal 1), \<^verbatim>\<open>datetime.min\<close> its midnight.\<close>

definition date_min :: date where
  "date_min = 1"

definition datetime_min :: datetime where
  "datetime_min = combine date_min 0"

text \<open>
  Modelled from the spec: \<^verbatim>\<open>TIME_MAX\<close> is imported from \<^verbatim>\<open>.utils\<close>, which is not among
  the sources; the spec calls it "the end of the calendar day". It is the time
  23:59:59.999990, the last time of day a converted timestamp can carry.
\<close>

definition TIME_MAX :: timeofday where
  "TIME_MAX = 86399999990"

subsection \<open>The Gregorian calendar of Python's \<^verbatim>\<open>datetime\<close> module\<close>

text \<open>
  \<^verbatim>\<open>ddate.month\<close>, \<^verbatim>\<open>ddate.day\<close> and \<^verbatim>\<open>ddate.isocalendar()\<close> are computed as the standard
  library does (\<^verbatim>\<open>_days_before_year\<close>, \<^verbatim>\<open>_ord2ymd\<close>, \<^verbatim>\<open>_isoweek1monday\<close>,
  \<^verbatim>\<open>isocalendar\<close>); Python's \<^verbatim>\<open>divmod\<close> floors, as \<open>div\<close> and \<open>mod\<close> on \<open>int\<close> do.
\<close>

definition days_before_year :: "int \<Rightarrow> int" where
  "days_before_year year = (let y = year - 1 in y * 365 + y div 4 - y div 100 + y div 400)"

definition DAYS_IN_MONTH :: "int list" where
  "DAYS_IN_MONTH = [-1, 31, 28, 31, 30, 31, 30, 31, 31, 30, 31, 30, 31]"

definition DAYS_BEFORE_MONTH :: "int list" where
  "DAYS_BEFORE_MONTH = [-1, 0, 31, 59, 90, 120, 151, 181, 212, 243, 273, 304, 334]"

definition ord2ymd :: "date \<Rightarrow> int \<times> int \<times> int" where
  "ord2ymd ordinal =
     (let n0 = ordinal - 1;
          n400 = n0 div 146097; r400 = n0 mod 146097;
          n100 = r400 div 36524; r100 = r400 mod 36524;
          n4 = r100 div 1461; r4 = r100 mod 1461;
          n1 = r4 div 365; n = r4 mod 365;
          year = n400 * 400 + 1 + n100 * 100 + n4 * 4 + n1
      in if n1 = 4 \<or> n100 = 4 then (year - 1, 12, 31)
         else
           let leapyear = (n1 = 3 \<and> (n4 \<noteq> 24 \<or> n100 = 3));
               month = (n + 50) div 32;
               preceding = DAYS_BEFORE_MONTH ! nat month
                             + (if month > 2 \<and> leapyear then 1 else 0)
           in if preceding > n
              then let month' = month - 1;
                       preceding' = preceding - (DAYS_IN_MONTH ! nat month'
                                      + (if month' = 2 \<and> leapyear then 1 else 0))
                   in (year, month', n - preceding' + 1)
              else (year, month, n - preceding + 1))"

definition month_of :: "date \<Rightarrow> int" where
  "month_of ddate = fst (snd (ord2ymd ddate))"

definition day_of :: "date \<Rightarrow> int" where
  "day_of ddate = snd (snd (ord2ymd ddate))"

definition isoweek1monday :: "int \<Rightarrow> int" where
  "isoweek1monday year =
     (let firstday = days_before_year year + 1;
          firstweekday = (firstday + 6) mod 7;
          week1monday = firstday - firstweekday
      in if firstweekday > 3 then week1monday + 7 else week1monday)"

definition isocalendar :: "date \<Rightarrow> int \<times> int \<times> int" where
  "isocalendar today =
     (let year = fst (ord2ymd today);
          week1monday = isoweek1monday year;
          week = (today - week1monday) div 7;
          day = (today - week1monday) mod 7
      in if week < 0
         then let year' = year - 1; w1 = isoweek1monday year'
              in (year', (today - w1) div 7 + 1, (today - w1) mod 7 + 1)
         else if week \<ge> 52 \<and> today \<ge> isoweek1monday (year + 1)
         then (year + 1, 1, day + 1)
         else (year, week + 1, day + 1))"

subsection \<open>Binary search of Python's \<^verbatim>\<open>bisect\<close> module\<close>

text \<open>
  \<^verbatim>\<open>bisect_left(a, x, lo)\<close> and \<^verbatim>\<open>bisect_right(a, x, lo)\<close> with \<^verbatim>\<open>hi = len(a)\<close>, as the
  loops of the standard library: nothing here assumes that the list is sorted.
\<close>

function bisect_left_loop :: "int list \<Rightarrow> int \<Rightarrow> nat \<Rightarrow> nat \<Rightarrow> nat" where
  "bisect_left_loop a x lo hi =
     (if lo < hi
      then (if a ! ((lo + hi) div 2) < x
            then bisect_left_loop a x ((lo + hi) div 2 + 1) hi
            else bisect_left_loop a x lo ((lo + hi) div 2))
      else lo)"
  by pat_completeness auto
termination
  by (relation "measure (\<lambda>(a, x, lo, hi). hi - lo)") auto

function bisect_right_loop :: "int list \<Rightarrow> int \<Rightarrow> nat \<Rightarrow> nat \<Rightarrow> nat" where
  "bisect_right_loop a x lo hi =
     (if lo < hi
      then (if x < a ! ((lo + hi) div 2)
            then bisect_right_loop a x lo ((lo + hi) div 2)
            else bisect_right_loop a x ((lo + hi) div 2 + 1) hi)
      else lo)"
  by pat_completeness auto
termination
  by (relation "measure (\<lambda>(a, x, lo, hi). hi - lo)") auto

declare bisect_left_loop.simps [simp del]
declare bisect_right_loop.simps [simp del]

definition bisect_left :: "int list \<Rightarrow> int \<Rightarrow> nat \<Rightarrow> nat" where
  "bisect_left a x lo = bisect_left_loop a x lo (length a)"

definition bisect_right :: "int list \<Rightarrow> int \<Rightarrow> nat \<Rightarrow> nat" where
  "bisect_right a x lo = bisect_right_loop a x lo (length a)"

text \<open>\<^verbatim>\<open>while dc: msk.popleft(); dc -= 1\<close> on a deque.\<close>

fun popleft_n :: "nat \<Rightarrow> int list \<Rightarrow> int list" where
  "popleft_n 0 msk = msk"
| "popleft_n (Suc dc) msk = popleft_n dc (tl msk)"

section \<open>Time sources\<close>

text \<open>
  The parameter \<^verbatim>\<open>tzdata\<close> is \<^verbatim>\<open>None\<close>, a timezone (pytz compatible) or a data feed.
  A timezone gives the UTC offset of a local wall-clock time (\<^verbatim>\<open>tz.localize\<close>) and of a
  UTC instant (\<^verbatim>\<open>astimezone\<close>). Of a data feed the evaluator reads the session start
  and end of its parameters, its timezone, and \<^verbatim>\<open>_getnexteos()\<close>, whose answer depends
  on the feed's position: it is an input of every call of \<open>check\<close>.
\<close>

record tzinfo =
  utcoffset_local :: "datetime \<Rightarrow> timedelta"
  utcoffset_utc :: "datetime \<Rightarrow> timedelta"

record feed =
  sessionstart :: timeofday
  sessionend :: timeofday
  feed_tz :: "tzinfo option"

datatype timesource = NoTz | Tz tzinfo | Data feed

text \<open>\<^verbatim>\<open>isinstance(self._tzdata, AbstractDataBase)\<close>.\<close>

fun isdata :: "timesource \<Rightarrow> bool" where
  "isdata (Data f) = True"
| "isdata _ = False"

text \<open>
  Modelled from the spec: \<^verbatim>\<open>date2num\<close> and \<^verbatim>\<open>num2date\<close> are imported from \<^verbatim>\<open>.utils\<close>,
  and \<^verbatim>\<open>date2num\<close> and \<^verbatim>\<open>num2date\<close> of a data feed from \<^verbatim>\<open>.feed\<close>; neither file is among
  the sources. The spec describes them as the localization of a naive date and time of
  day into the absolute timestamp of the time source. \<^verbatim>\<open>date2num(dt, tz)\<close> reads the naive
  \<^verbatim>\<open>dt\<close> as wall-clock time of \<^verbatim>\<open>tz\<close> and gives the UTC timestamp; without \<^verbatim>\<open>tz\<close> it reads
  \<^verbatim>\<open>dt\<close> as UTC. \<^verbatim>\<open>num2date(x, tz)\<close> gives the naive wall-clock time of \<^verbatim>\<open>tz\<close> at the
  instant \<^verbatim>\<open>x\<close>; without \<^verbatim>\<open>tz\<close> the naive UTC time. A data feed converts with its own
  timezone.
\<close>

definition date2num :: "tzinfo option \<Rightarrow> datetime \<Rightarrow> num" where
  "date2num tz d = (case tz of None \<Rightarrow> d | Some z \<Rightarrow> d - utcoffset_local z d)"

definition num2date :: "tzinfo option \<Rightarrow> num \<Rightarrow> datetime" where
  "num2date tz x = (case tz of None \<Rightarrow> x | Some z \<Rightarrow> x + utcoffset_utc z x)"

definition feed_date2num :: "feed \<Rightarrow> datetime \<Rightarrow> num" where
  "feed_date2num f d = date2num (feed_tz f) d"

definition feed_num2date :: "feed \<Rightarrow> num \<Rightarrow> datetime" where
  "feed_num2date f x = num2date (feed_tz f) x"

section \<open>The timer: parameters and state\<close>

text \<open>
  The parameters the evaluator reads. \<^verbatim>\<open>when\<close> is a time of day or one of the integers
  \<^verbatim>\<open>SESSION_TIME, SESSION_START, SESSION_END = range(3)\<close>. The parameters \<^verbatim>\<open>tid\<close>,
  \<^verbatim>\<open>owner\<close>, \<^verbatim>\<open>strats\<close> and \<^verbatim>\<open>cheat\<close> are not read by the class.
\<close>

datatype when_param = WhenTime timeofday | WhenSession int

definition SESSION_TIME :: int where "SESSION_TIME = 0"
definition SESSION_START :: int where "SESSION_START = 1"
definition SESSION_END :: int where "SESSION_END = 2"

record params =
  p_when :: when_param
  p_offset :: timedelta
  p_repeat :: timedelta
  p_weekdays :: "int list"
  p_weekcarry :: bool
  p_monthdays :: "int list"
  p_monthcarry :: bool
  p_allow :: "(date \<Rightarrow> bool) option"
  p_tzdata :: timesource

text \<open>
  The attributes of a started timer. \<^verbatim>\<open>_dwhen\<close> and \<^verbatim>\<open>_dtwhen\<close> are always assigned
  together (both \<^verbatim>\<open>None\<close> in \<^verbatim>\<open>_reset_when\<close>, both set when a trigger is resolved or
  rescheduled): \<open>trigger\<close> holds the pair. \<^verbatim>\<open>_lastcall\<close> is \<^verbatim>\<open>datetime.min\<close> or a date; a
  \<^verbatim>\<open>datetime\<close> never equals a \<^verbatim>\<open>date\<close> in Python, so \<^verbatim>\<open>datetime.min\<close> is \<open>None\<close> here.
  \<^verbatim>\<open>lastwhen\<close> does not exist before the first fire.
\<close>

record state =
  rstwhen :: timeofday
  tzdata :: timesource
  cur_when :: timeofday
  trigger :: "(datetime \<times> num) option"
  lastcall :: "date option"
  nexteos :: datetime
  curdate :: date
  curmonth :: int
  monthmask :: "int list"
  curweek :: int
  weekmask :: "int list"
  lastwhen :: "datetime option"

text \<open>\<^verbatim>\<open>_reset_when(ddate=datetime.min)\<close>.\<close>

definition reset_when :: "state \<Rightarrow> date option \<Rightarrow> state" where
  "reset_when st ddate = st\<lparr>cur_when := rstwhen st, trigger := None, lastcall := ddate\<rparr>"

text \<open>
  \<^verbatim>\<open>start(data)\<close>. With an integer \<^verbatim>\<open>when\<close> the session time is read from the parameters
  of the time source, which only a data feed has; with any integer but
  \<^verbatim>\<open>SESSION_START\<close> and \<^verbatim>\<open>SESSION_END\<close>, \<^verbatim>\<open>_rstwhen\<close> is never assigned and
  \<^verbatim>\<open>_reset_when\<close> fails.
\<close>

datatype error = AttributeError

definition started :: "timeofday \<Rightarrow> timesource \<Rightarrow> state" where
  "started rst tz =
     (reset_when
        \<lparr>rstwhen = rst, tzdata = tz, cur_when = rst, trigger = None, lastcall = None,
         nexteos = datetime_min, curdate = date_min, curmonth = -1, monthmask = [],
         curweek = -1, weekmask = [], lastwhen = None\<rparr> None)
       \<lparr>nexteos := datetime_min, curdate := date_min,
        curmonth := -1, monthmask := [], curweek := -1, weekmask := []\<rparr>"

definition start :: "params \<Rightarrow> feed \<Rightarrow> error + state" where
  "start p data =
     (case p_when p of
        WhenTime t \<Rightarrow> Inr (started t (p_tzdata p))
      | WhenSession n \<Rightarrow>
          (let tz = (case p_tzdata p of NoTz \<Rightarrow> Data data | z \<Rightarrow> z)
           in if n = SESSION_START
              then (case tz of Data f \<Rightarrow> Inr (started (sessionstart f) tz)
                    | _ \<Rightarrow> Inl AttributeError)
              else if n = SESSION_END
              then (case tz of Data f \<Rightarrow> Inr (started (sessionend f) tz)
                    | _ \<Rightarrow> Inl AttributeError)
              else Inl AttributeError))"

section \<open>The day filters\<close>

text \<open>\<^verbatim>\<open>_check_month(ddate)\<close>: the result and the state with the month and its mask.\<close>

definition check_month :: "params \<Rightarrow> state \<Rightarrow> date \<Rightarrow> bool \<times> state" where
  "check_month p st ddate =
     (if p_monthdays p = [] then (True, st)
      else
        let dmonth = month_of ddate;
            newmonth = (dmonth \<noteq> curmonth st);
            daycarry0 = (newmonth \<and> p_monthcarry p \<and> monthmask st \<noteq> []);
            msk = (if newmonth then p_monthdays p else monthmask st);
            dday = day_of ddate;
            dc = bisect_left msk dday 0;
            daycarry = (daycarry0 \<or> (p_monthcarry p \<and> dc > 0));
            curday = (if dc < length msk then bisect_right msk dday dc > 0 else False);
            dc' = (if dc < length msk then dc + (if curday then 1 else 0) else dc)
        in (daycarry \<or> curday,
            st\<lparr>curmonth := dmonth, monthmask := popleft_n dc' msk\<rparr>))"

text \<open>\<^verbatim>\<open>_check_week(ddate)\<close>: the same on the ISO week and the ISO weekday.\<close>

definition check_week :: "params \<Rightarrow> state \<Rightarrow> date \<Rightarrow> bool \<times> state" where
  "check_week p st ddate =
     (if p_weekdays p = [] then (True, st)
      else
        let dweek = fst (snd (isocalendar ddate));
            dwkday = snd (snd (isocalendar ddate));
            newweek = (dweek \<noteq> curweek st);
            daycarry0 = (newweek \<and> p_weekcarry p \<and> weekmask st \<noteq> []);
            msk = (if newweek then p_weekdays p else weekmask st);
            dc = bisect_left msk dwkday 0;
            daycarry = (daycarry0 \<or> (p_weekcarry p \<and> dc > 0));
            curday = (if dc < length msk then bisect_right msk dwkday dc > 0 else False);
            dc' = (if dc < length msk then dc + (if curday then 1 else 0) else dc)
        in (daycarry \<or> curday,
            st\<lparr>curweek := dweek, weekmask := popleft_n dc' msk\<rparr>))"

section \<open>The evaluation of one sample: \<^verbatim>\<open>check(dt)\<close>\<close>

text \<open>
  The three filters of a date change, in the order of the source (lines 171 to 175):
  the month days, then (if they passed) the week days, then (if both passed and an
  \<^verbatim>\<open>allow\<close> callable is configured) the callable. The list of \<open>ev\<close> records which of
  them the call ran, in order; it is not part of the timer's state.
\<close>

datatype ev = EvMonth | EvWeek | EvAllow

definition date_filters :: "params \<Rightarrow> state \<Rightarrow> date \<Rightarrow> bool \<times> ev list \<times> state" where
  "date_filters p st ddate =
     (case check_month p st ddate of
        (ret, st1) \<Rightarrow>
          if ret
          then (case check_week p st1 ddate of
                  (ret2, st2) \<Rightarrow>
                    if ret2
                    then (case p_allow p of
                            None \<Rightarrow> (True, [EvMonth, EvWeek], st2)
                          | Some allow \<Rightarrow> (allow ddate, [EvMonth, EvWeek, EvAllow], st2))
                    else (False, [EvMonth, EvWeek], st2))
          else (False, [EvMonth], st1))"

text \<open>
  The end of the session a sample belongs to (lines 162 to 165 and 205 to 208): the
  answer \<open>eos\<close> of the data feed's \<^verbatim>\<open>_getnexteos()\<close> during this call, or the end of the
  calendar day.
\<close>

definition getnexteos :: "timesource \<Rightarrow> date \<Rightarrow> datetime \<Rightarrow> datetime" where
  "getnexteos tz ddate eos = (if isdata tz then eos else combine ddate TIME_MAX)"

text \<open>
  The numeric trigger of a wall-clock time (lines 191 to 194), and the wall-clock time of
  a rescheduled numeric trigger (lines 223 to 226).
\<close>

definition local_date2num :: "timesource \<Rightarrow> datetime \<Rightarrow> num" where
  "local_date2num tz dwhen =
     (case tz of
        Data f \<Rightarrow> feed_date2num f dwhen
      | Tz z \<Rightarrow> date2num (Some z) dwhen
      | NoTz \<Rightarrow> date2num None dwhen)"

definition local_num2date :: "timesource \<Rightarrow> num \<Rightarrow> datetime" where
  "local_num2date tz dtwhen =
     (case tz of
        Data f \<Rightarrow> feed_num2date f dtwhen
      | Tz z \<Rightarrow> num2date (Some z) dtwhen
      | NoTz \<Rightarrow> num2date None dtwhen)"

text \<open>Lines 182 to 194: the cached trigger, or the one resolved for this date.\<close>

definition resolve_when :: "params \<Rightarrow> state \<Rightarrow> date \<Rightarrow> datetime \<times> num \<times> state" where
  "resolve_when p st ddate =
     (case trigger st of
        Some (dwhen, dtwhen) \<Rightarrow> (dwhen, dtwhen, st)
      | None \<Rightarrow>
          let dwhen0 = combine ddate (cur_when st);
              dwhen = (if p_offset p \<noteq> 0 then dwhen0 + p_offset p else dwhen0);
              dtwhen = local_date2num (tzdata st) dwhen
          in (dwhen, dtwhen, st\<lparr>trigger := Some (dwhen, dtwhen)\<rparr>))"

text \<open>
  The loop of lines 214 to 228. It ends by giving up (the next time is beyond the
  session) or with the next time after the sample; with a negative \<^verbatim>\<open>repeat\<close> it may run
  forever, which is the value \<open>None\<close>.
\<close>

datatype resched = GiveUp | Next datetime

partial_function (option) repeat_loop ::
  "timedelta \<Rightarrow> datetime \<Rightarrow> datetime \<Rightarrow> datetime \<Rightarrow> resched option" where
  "repeat_loop r eos d dwhen =
     (if dwhen + r > eos then Some GiveUp
      else if dwhen + r > d then Some (Next (dwhen + r))
      else repeat_loop r eos d (dwhen + r))"

text \<open>Lines 199 to 228: the sample met the trigger \<open>dwhen\<close>.\<close>

definition fire ::
  "params \<Rightarrow> state \<Rightarrow> datetime \<Rightarrow> date \<Rightarrow> datetime \<Rightarrow> datetime \<Rightarrow> state option" where
  "fire p st d ddate eos dwhen =
     (let st1 = st\<lparr>lastwhen := Some dwhen\<rparr>
      in if p_repeat p = 0 then Some (reset_when st1 (Some ddate))
         else
           let st2 = (if d > nexteos st1
                      then st1\<lparr>nexteos := getnexteos (tzdata st1) ddate eos\<rparr>
                      else st1)
           in case repeat_loop (p_repeat p) (nexteos st2) d dwhen of
                None \<Rightarrow> None
              | Some GiveUp \<Rightarrow> Some (reset_when st2 (Some ddate))
              | Some (Next dwhen') \<Rightarrow>
                  Some (st2\<lparr>trigger :=
                    Some (local_num2date (tzdata st2) (date2num None dwhen'),
                          date2num None dwhen')\<rparr>))"

text \<open>
  \<^verbatim>\<open>check(dt)\<close>, with the feed's answer \<open>eos\<close>. The result is \<open>None\<close> when the call does
  not return, and otherwise the returned value, the filters the call ran, and the state
  it leaves.
\<close>

text \<open>
  Lines 161 to 167, the session rollover: a sample past the cached end of session
  fetches the next one and resets the target (\<^verbatim>\<open>_reset_when()\<close> with its default
  argument).
\<close>

definition session_rollover :: "state \<Rightarrow> datetime \<Rightarrow> date \<Rightarrow> datetime \<Rightarrow> state" where
  "session_rollover st d ddate eos =
     (if d > nexteos st
      then reset_when (st\<lparr>nexteos := getnexteos (tzdata st) ddate eos\<rparr>) None
      else st)"

text \<open>
  Lines 169 to 175, the date rollover: the verdict of the filters (true when the date
  did not change), the filters run, and the state.
\<close>

definition date_rollover :: "params \<Rightarrow> state \<Rightarrow> date \<Rightarrow> bool \<times> ev list \<times> state" where
  "date_rollover p st ddate =
     (if ddate > curdate st
      then date_filters p (st\<lparr>curdate := ddate\<rparr>) ddate
      else (True, [], st))"

definition check ::
  "params \<Rightarrow> state \<Rightarrow> num \<Rightarrow> datetime \<Rightarrow> (bool \<times> ev list \<times> state) option" where
  "check p st dt eos =
     (let d = num2date None dt; ddate = date_of d
      in if lastcall st = Some ddate then Some (False, [], st)
         else
           (case date_rollover p (session_rollover st d ddate eos) ddate of
              (ret, evs, st2) \<Rightarrow>
                if \<not> ret then Some (False, evs, reset_when st2 (Some ddate))
                else
                  (case resolve_when p st2 ddate of
                     (dwhen, dtwhen, st3) \<Rightarrow>
                       if dt < dtwhen then Some (False, evs, st3)
                       else (case fire p st3 d ddate eos dwhen of
                               None \<Rightarrow> None
                             | Some st4 \<Rightarrow> Some (True, evs, st4)))))"

text \<open>
  A sequence of calls, each a timestamp with the feed's answer: the results of the calls
  in order, each with the state its call left, or \<open>None\<close> when one of them does not
  return.
\<close>

fun run ::
  "params \<Rightarrow> state \<Rightarrow> (num \<times> datetime) list \<Rightarrow> (bool \<times> ev list \<times> state) list option" where
  "run p st [] = Some []"
| "run p st (x # xs) =
     (case check p st (fst x) (snd x) of
        None \<Rightarrow> None
      | Some r \<Rightarrow>
          (case run p (snd (snd r)) xs of
             None \<Rightarrow> None
           | Some rs \<Rightarrow> Some (r # rs)))"

text \<open>The values \<^verbatim>\<open>lastwhen\<close> holds after the calls that returned true, in order.\<close>

definition fired_instants :: "(bool \<times> ev list \<times> state) list \<Rightarrow> datetime list" where
  "fired_instants rs =
     concat (map (\<lambda>r. if fst r then (case lastwhen (snd (snd r)) of
                                       None \<Rightarrow> [] | Some w \<Rightarrow> [w])
                       else []) rs)"

section \<open>Concrete timers\<close>

text \<open>
  The defaults of the class attribute \<^verbatim>\<open>params\<close>, for a given \<^verbatim>\<open>when\<close>, and the
  configurations the properties below are evaluated on. The dates used are
  2024-01-05 (ordinal 738890), 2024-01-10 (738895, a Wednesday), 2024-01-11 (738896),
  2024-01-15 (738900) and 0001-01-01 (\<open>date_min\<close>).
\<close>

definition hms :: "int \<Rightarrow> int \<Rightarrow> int \<Rightarrow> timeofday" where
  "hms h m s = ((h * 60 + m) * 60 + s) * 1000000"

definition defaults :: "when_param \<Rightarrow> params" where
  "defaults w =
     \<lparr>p_when = w, p_offset = 0, p_repeat = 0, p_weekdays = [], p_weekcarry = False,
      p_monthdays = [], p_monthcarry = True, p_allow = None, p_tzdata = NoTz\<rparr>"

text \<open>\<^verbatim>\<open>monthdays=[5, 15, 25]\<close> with \<^verbatim>\<open>monthcarry\<close> as given.\<close>

definition monthly :: "bool \<Rightarrow> params" where
  "monthly carry = (defaults (WhenTime 0))\<lparr>p_monthdays := [5, 15, 25], p_monthcarry := carry\<rparr>"

text \<open>A timezone one hour east of UTC, and an hourly timer at 09:00 in it.\<close>

definition plus1h :: tzinfo where
  "plus1h = \<lparr>utcoffset_local = (\<lambda>_. hms 1 0 0), utcoffset_utc = (\<lambda>_. hms 1 0 0)\<rparr>"

definition hourly_plus1h :: params where
  "hourly_plus1h =
     (defaults (WhenTime (hms 9 0 0)))\<lparr>p_repeat := hms 1 0 0, p_tzdata := Tz plus1h\<rparr>"

text \<open>A daily timer at 09:00 and an hourly one from 09:00, both without a timezone.\<close>

definition daily9 :: params where
  "daily9 = defaults (WhenTime (hms 9 0 0))"



definition daily9_plus30 :: params where
  "daily9_plus30 = (defaults (WhenTime (hms 9 0 0)))\<lparr>p_offset := hms 0 30 0\<rparr>"

text \<open>A daily timer at 09:00 whose \<^verbatim>\<open>allow\<close> callable refuses every date.\<close>

definition never_allowed :: params where
  "never_allowed = (defaults (WhenTime (hms 9 0 0)))\<lparr>p_allow := Some (\<lambda>d. False)\<rparr>"


text \<open>Samples of one date at the given times of day (the feed's answer is not read).\<close>

definition day_samples :: "date \<Rightarrow> timeofday list \<Rightarrow> (num \<times> datetime) list" where
  "day_samples ddate ts = map (\<lambda>t. (combine ddate t, 0)) ts"

section \<open>Notions used in the properties\<close>

text \<open>The state a sequence of calls leaves: the state of its last result.\<close>

definition final_state :: "state \<Rightarrow> (bool \<times> ev list \<times> state) list \<Rightarrow> state" where
  "final_state st rs = (if rs = [] then st else snd (snd (last rs)))"

text \<open>
  What a date rollover on date \<open>D\<close> has to run, from the verdicts of the three filters
  on the state before the call: the month days; the week days only if the month days
  passed; the \<^verbatim>\<open>allow\<close> callable only if both passed and it is configured. The date passes
  when all three accept it.
\<close>

definition expected_filters :: "params \<Rightarrow> state \<Rightarrow> date \<Rightarrow> ev list" where
  "expected_filters p st D =
     (if \<not> fst (check_month p st D) then [EvMonth]
      else if \<not> fst (check_week p st D) then [EvMonth, EvWeek]
      else if p_allow p = None then [EvMonth, EvWeek]
      else [EvMonth, EvWeek, EvAllow])"

definition date_passes :: "params \<Rightarrow> state \<Rightarrow> date \<Rightarrow> bool" where
  "date_passes p st D =
     (fst (check_month p st D) \<and> fst (check_week p st D)
      \<and> (case p_allow p of None \<Rightarrow> True | Some allow \<Rightarrow> allow D))"

text \<open>
  The trigger of a date: the date combined with the target time of \<^verbatim>\<open>start\<close>, plus the
  offset, and its localization by the time source.
\<close>

definition target_of :: "params \<Rightarrow> state \<Rightarrow> date \<Rightarrow> datetime" where
  "target_of p st D = combine D (rstwhen st) + p_offset p"

definition trigger_of :: "params \<Rightarrow> state \<Rightarrow> date \<Rightarrow> num" where
  "trigger_of p st D = local_date2num (tzdata st) (target_of p st D)"


definition awaiting :: "params \<Rightarrow> state \<Rightarrow> date \<Rightarrow> state \<Rightarrow> num \<Rightarrow> bool" where
  "awaiting p st D s dt =
     (lastcall s \<noteq> Some D \<and> tzdata s = tzdata st \<and> rstwhen s = rstwhen st
      \<and> (nexteos s < dt \<or> trigger s = None \<and> cur_when s = rstwhen s
           \<or> trigger s = Some (target_of p st D, trigger_of p st D))
      \<and> (curdate s < D \<longrightarrow> date_passes p s D))"

text \<open>
  The order of \<^verbatim>\<open>_lastcall\<close> values, with \<^verbatim>\<open>datetime.min\<close> ("never") below every date,
  and what holds of it along a sequence of calls and their results: each call leaves
  \<^verbatim>\<open>_lastcall\<close> at or above its value before the call, or leaves it at "never" and its
  sample was past the cached end of session.
\<close>

definition lastcall_le :: "date option \<Rightarrow> date option \<Rightarrow> bool" where
  "lastcall_le a b =
     (case a of None \<Rightarrow> True | Some x \<Rightarrow> (case b of None \<Rightarrow> False | Some y \<Rightarrow> x \<le> y))"

fun lastcall_monotone ::
  "state \<Rightarrow> (num \<times> datetime) list \<Rightarrow> (bool \<times> ev list \<times> state) list \<Rightarrow> bool" where
  "lastcall_monotone st (x # xs) (r # rs) =
     ((lastcall_le (lastcall st) (lastcall (snd (snd r)))
        \<or> lastcall (snd (snd r)) = None \<and> nexteos st < fst x)
      \<and> lastcall_monotone (snd (snd r)) xs rs)"
| "lastcall_monotone st xs rs = True"

text \<open>
  A date the \<^verbatim>\<open>allow\<close> callable refuses, and the invariant of the proof: when the current
  date is a refused one (and not the minimum date the timer starts with), it is marked as
  called.
\<close>

definition vetoed :: "params \<Rightarrow> date \<Rightarrow> bool" where
  "vetoed p D = (case p_allow p of None \<Rightarrow> False | Some allow \<Rightarrow> \<not> allow D)"

definition veto_kept :: "params \<Rightarrow> state \<Rightarrow> bool" where
  "veto_kept p st =
     (date_min < curdate st \<and> vetoed p (curdate st) \<longrightarrow> lastcall st = Some (curdate st))"






section \<open>Evaluation of concrete calls\<close>

lemma popleft_n_drop: "popleft_n n msk = drop n msk"
  by (induction n arbitrary: msk) (simp_all add: drop_Suc)

lemmas calendar_defs =
  month_of_def day_of_def ord2ymd_def isocalendar_def isoweek1monday_def
  days_before_year_def DAYS_BEFORE_MONTH_def DAYS_IN_MONTH_def

lemmas bisect_defs =
  bisect_left_def bisect_right_def bisect_left_loop.simps bisect_right_loop.simps
  popleft_n_drop

lemmas time_defs =
  combine_def date_of_def US_PER_DAY_def TIME_MAX_def date_min_def datetime_min_def hms_def

lemmas check_defs =
  check_def session_rollover_def date_rollover_def date_filters_def check_month_def check_week_def resolve_when_def fire_def
  getnexteos_def local_date2num_def local_num2date_def date2num_def num2date_def
  feed_date2num_def feed_num2date_def reset_when_def started_def repeat_loop.simps

section \<open>Basic facts\<close>


lemma US_PER_DAY_pos: "0 < US_PER_DAY"
  by (simp add: US_PER_DAY_def)

lemma num2date_None [simp]: "num2date None x = x"
  by (simp add: num2date_def)

lemma date2num_None [simp]: "date2num None d = d"
  by (simp add: date2num_def)

lemma date_of_mono: "a \<le> b \<Longrightarrow> date_of a \<le> date_of b"
  unfolding date_of_def using US_PER_DAY_pos by (simp add: zdiv_mono1)

lemma check_lastcall:
  "lastcall st = Some (date_of dt) \<Longrightarrow> check p st dt eos = Some (False, [], st)"
  by (simp add: check_def)

lemma fire_no_repeat:
  "p_repeat p = 0 \<Longrightarrow>
   fire p st d ddate eos dwhen = Some (reset_when (st\<lparr>lastwhen := Some dwhen\<rparr>) (Some ddate))"
  by (simp add: fire_def)

lemma check_no_repeat_returns:
  assumes "p_repeat p = 0"
  shows "\<exists>r. check p st dt eos = Some r"
  using assms
  by (auto simp add: check_def fire_no_repeat Let_def split: prod.splits)

lemma check_no_repeat_true:
  assumes "p_repeat p = 0" and "check p st dt eos = Some (True, evs, st')"
  shows "lastcall st' = Some (date_of dt)"
  using assms
  by (auto simp add: check_def fire_no_repeat reset_when_def Let_def split: prod.splits if_splits)

lemma run_all_lastcall:
  assumes "lastcall st = Some D" and "\<forall>x\<in>set xs. date_of (fst x) = D"
  shows "run p st xs = Some (map (\<lambda>x. (False, [], st)) xs)"
  using assms
  by (induction xs) (simp_all add: check_lastcall)

subsection \<open>What the parts of a call change\<close>

lemma check_month_frame:
  "check_month p st D = (b, st') \<Longrightarrow>
     rstwhen st' = rstwhen st \<and> tzdata st' = tzdata st \<and> cur_when st' = cur_when st
     \<and> trigger st' = trigger st \<and> lastcall st' = lastcall st \<and> nexteos st' = nexteos st
     \<and> curdate st' = curdate st \<and> curweek st' = curweek st \<and> weekmask st' = weekmask st
     \<and> lastwhen st' = lastwhen st"
  by (auto simp add: check_month_def Let_def split: if_splits)

lemma check_week_frame:
  "check_week p st D = (b, st') \<Longrightarrow>
     rstwhen st' = rstwhen st \<and> tzdata st' = tzdata st \<and> cur_when st' = cur_when st
     \<and> trigger st' = trigger st \<and> lastcall st' = lastcall st \<and> nexteos st' = nexteos st
     \<and> curdate st' = curdate st \<and> curmonth st' = curmonth st \<and> monthmask st' = monthmask st
     \<and> lastwhen st' = lastwhen st"
  by (auto simp add: check_week_def Let_def split: if_splits)

lemma date_filters_frame:
  assumes "date_filters p st D = (b, evs, st')"
  shows "rstwhen st' = rstwhen st \<and> tzdata st' = tzdata st \<and> cur_when st' = cur_when st
     \<and> trigger st' = trigger st \<and> lastcall st' = lastcall st \<and> nexteos st' = nexteos st
     \<and> curdate st' = curdate st \<and> lastwhen st' = lastwhen st"
proof -
  obtain m s1 where m: "check_month p st D = (m, s1)" by (cases "check_month p st D")
  obtain w s2 where w: "check_week p s1 D = (w, s2)" by (cases "check_week p s1 D")
  from assms m w have "st' = s1 \<or> st' = s2"
    by (auto simp add: date_filters_def split: if_splits option.splits)
  then show ?thesis
    using check_month_frame [OF m] check_week_frame [OF w] by auto
qed

lemma date_rollover_frame:
  assumes "date_rollover p st D = (b, evs, st')"
  shows "rstwhen st' = rstwhen st \<and> tzdata st' = tzdata st \<and> cur_when st' = cur_when st
     \<and> trigger st' = trigger st \<and> lastcall st' = lastcall st \<and> nexteos st' = nexteos st
     \<and> lastwhen st' = lastwhen st
     \<and> curdate st' = (if curdate st < D then D else curdate st)"
proof (cases "curdate st < D")
  case True
  with assms have "date_filters p (st\<lparr>curdate := D\<rparr>) D = (b, evs, st')"
    by (simp add: date_rollover_def)
  from date_filters_frame [OF this] True show ?thesis by simp
next
  case False
  with assms show ?thesis by (simp add: date_rollover_def)
qed




lemma resolve_when_frame:
  assumes "resolve_when p st D = (dwhen, dtwhen, st')"
  shows "rstwhen st' = rstwhen st \<and> tzdata st' = tzdata st \<and> cur_when st' = cur_when st
     \<and> lastcall st' = lastcall st \<and> nexteos st' = nexteos st \<and> curdate st' = curdate st
     \<and> curmonth st' = curmonth st \<and> monthmask st' = monthmask st
     \<and> curweek st' = curweek st \<and> weekmask st' = weekmask st \<and> lastwhen st' = lastwhen st
     \<and> trigger st' = Some (dwhen, dtwhen)"
  using assms by (auto simp add: resolve_when_def Let_def split: option.splits)

subsection \<open>The paths of a call\<close>

lemma check_cases [consumes 1, case_names guard reject early fired]:
  assumes "check p st dt eos = Some (b, evs, st')"
  obtains
    (guard) "lastcall st = Some (date_of dt)" "\<not> b" "evs = []" "st' = st"
  | (reject) s2 where "lastcall st \<noteq> Some (date_of dt)"
      "date_rollover p (session_rollover st dt (date_of dt) eos) (date_of dt) = (False, evs, s2)"
      "\<not> b" "st' = reset_when s2 (Some (date_of dt))"
  | (early) s2 dwhen dtwhen where "lastcall st \<noteq> Some (date_of dt)"
      "date_rollover p (session_rollover st dt (date_of dt) eos) (date_of dt) = (True, evs, s2)"
      "resolve_when p s2 (date_of dt) = (dwhen, dtwhen, st')" "dt < dtwhen" "\<not> b"
  | (fired) s2 dwhen dtwhen s3 where "lastcall st \<noteq> Some (date_of dt)"
      "date_rollover p (session_rollover st dt (date_of dt) eos) (date_of dt) = (True, evs, s2)"
      "resolve_when p s2 (date_of dt) = (dwhen, dtwhen, s3)" "dtwhen \<le> dt"
      "fire p s3 dt (date_of dt) eos dwhen = Some st'" "b"
  using assms
  by (auto simp add: check_def Let_def split: if_splits prod.splits option.splits)

subsection \<open>The repeat loop\<close>

lemma repeat_loop_sound:
  assumes "repeat_loop r eos d w = Some y"
  shows "\<forall>w'. y = Next w' \<longrightarrow> d < w' \<and> w' \<le> eos \<and> (\<exists>k::nat. w' = w + (1 + int k) * r)"
  using assms
proof (rule repeat_loop.raw_induct [rotated, where P = "\<lambda>r eos d w y.
    \<forall>w'. y = Next w' \<longrightarrow> d < w' \<and> w' \<le> eos \<and> (\<exists>k::nat. w' = w + (1 + int k) * r)"])
  fix f r eos d w y
  assume IH: "\<And>r eos d w y. f r eos d w = Some y \<Longrightarrow>
      \<forall>w'. y = Next w' \<longrightarrow> d < w' \<and> w' \<le> eos \<and> (\<exists>k::nat. w' = w + (1 + int k) * r)"
    and step: "(if eos < w + r then Some GiveUp
                else if d < w + r then Some (Next (w + r))
                else f r eos d (w + r)) = Some y"
  show "\<forall>w'. y = Next w' \<longrightarrow> d < w' \<and> w' \<le> eos \<and> (\<exists>k::nat. w' = w + (1 + int k) * r)"
  proof (intro allI impI)
    fix w' assume y: "y = Next w'"
    consider (now) "\<not> eos < w + r" "d < w + r" "w' = w + r"
      | (later) "\<not> eos < w + r" "\<not> d < w + r" "f r eos d (w + r) = Some (Next w')"
      using step y by (auto split: if_splits)
    then show "d < w' \<and> w' \<le> eos \<and> (\<exists>k::nat. w' = w + (1 + int k) * r)"
    proof cases
      case now
      then have "w' = w + (1 + int 0) * r" by simp
      with now show ?thesis by (metis not_less)
    next
      case later
      from IH [OF later(3)] obtain k :: nat where
        k: "d < w'" "w' \<le> eos" "w' = w + r + (1 + int k) * r" by auto
      have "w' = w + (1 + int (Suc k)) * r" using k(3) by (simp add: algebra_simps)
      with k show ?thesis by blast
    qed
  qed
qed

lemma repeat_loop_Next:
  "repeat_loop r eos d w = Some (Next w') \<Longrightarrow> d < w' \<and> w' \<le> eos"
  using repeat_loop_sound by blast

lemma repeat_loop_terminates:
  assumes "0 < r"
  shows "\<exists>y. repeat_loop r eos d w = Some y"
proof (induction "nat (d - w)" arbitrary: w rule: less_induct)
  case less
  show ?case
  proof (cases "eos < w + r \<or> d < w + r")
    case True
    then show ?thesis by (subst repeat_loop.simps) auto
  next
    case False
    then have "nat (d - (w + r)) < nat (d - w)" using assms by auto
    from less [OF this] obtain y where "repeat_loop r eos d (w + r) = Some y" by blast
    with False show ?thesis by (subst repeat_loop.simps) auto
  qed
qed

subsection \<open>Firing\<close>


lemma fire_frame:
  assumes "fire p st d D eos dwhen = Some st'"
  shows "curdate st' = curdate st \<and> tzdata st' = tzdata st \<and> rstwhen st' = rstwhen st
     \<and> curmonth st' = curmonth st \<and> monthmask st' = monthmask st
     \<and> curweek st' = curweek st \<and> weekmask st' = weekmask st
     \<and> lastwhen st' = Some dwhen
     \<and> (lastcall st' = lastcall st \<or> lastcall st' = Some D)"
  using assms
  by (auto simp add: fire_def Let_def reset_when_def split: if_splits option.splits resched.splits)

lemma session_rollover_frame:
  "curdate (session_rollover st d D eos) = curdate st
   \<and> tzdata (session_rollover st d D eos) = tzdata st
   \<and> rstwhen (session_rollover st d D eos) = rstwhen st
   \<and> curmonth (session_rollover st d D eos) = curmonth st
   \<and> monthmask (session_rollover st d D eos) = monthmask st
   \<and> curweek (session_rollover st d D eos) = curweek st
   \<and> weekmask (session_rollover st d D eos) = weekmask st
   \<and> lastwhen (session_rollover st d D eos) = lastwhen st
   \<and> (lastcall (session_rollover st d D eos) = lastcall st
        \<or> lastcall (session_rollover st d D eos) = None \<and> nexteos st < d)"
  by (simp add: session_rollover_def reset_when_def)

lemma check_curdate:
  assumes "check p st dt eos = Some (b, evs, st')"
  shows "curdate st' = (if lastcall st \<noteq> Some (date_of dt) \<and> curdate st < date_of dt
                        then date_of dt else curdate st)"
  using assms
proof (cases rule: check_cases)
  case guard
  then show ?thesis by simp
next
  case (reject s2)
  with date_rollover_frame [OF reject(2)] session_rollover_frame [of st dt "date_of dt" eos]
  show ?thesis by (simp add: reset_when_def)
next
  case (early s2 dwhen dtwhen)
  with date_rollover_frame [OF early(2)] session_rollover_frame [of st dt "date_of dt" eos]
    resolve_when_frame [OF early(3)]
  show ?thesis by simp
next
  case (fired s2 dwhen dtwhen s3)
  with date_rollover_frame [OF fired(2)] session_rollover_frame [of st dt "date_of dt" eos]
    resolve_when_frame [OF fired(3)] fire_frame [OF fired(5)]
  show ?thesis by simp
qed

lemma check_lastcall_cases:
  assumes "check p st dt eos = Some (b, evs, st')"
  shows "lastcall st' = lastcall st \<or> lastcall st' = Some (date_of dt)
         \<or> (lastcall st' = None \<and> nexteos st < dt)"
  using assms
proof (cases rule: check_cases)
  case guard
  then show ?thesis by simp
next
  case (reject s2)
  then show ?thesis by (simp add: reset_when_def)
next
  case (early s2 dwhen dtwhen)
  with date_rollover_frame [OF early(2)] session_rollover_frame [of st dt "date_of dt" eos]
    resolve_when_frame [OF early(3)]
  show ?thesis by auto
next
  case (fired s2 dwhen dtwhen s3)
  with date_rollover_frame [OF fired(2)] session_rollover_frame [of st dt "date_of dt" eos]
    resolve_when_frame [OF fired(3)] fire_frame [OF fired(5)]
  show ?thesis by auto
qed



lemma run_ConsE:
  assumes "run p st (x # xs) = Some rs"
  obtains b evs st' rs' where "check p st (fst x) (snd x) = Some (b, evs, st')"
    "run p st' xs = Some rs'" "rs = (b, evs, st') # rs'"
  using assms by (auto split: option.splits)

lemma final_state_Cons:
  "final_state st ((b, evs, st') # rs) = final_state st' rs"
  by (simp add: final_state_def)


lemma check_month_verdict:
  "curmonth s = curmonth st \<Longrightarrow> monthmask s = monthmask st \<Longrightarrow>
   fst (check_month p s D) = fst (check_month p st D)"
  by (simp add: check_month_def Let_def)

lemma check_week_verdict:
  "curweek s = curweek st \<Longrightarrow> weekmask s = weekmask st \<Longrightarrow>
   fst (check_week p s D) = fst (check_week p st D)"
  by (simp add: check_week_def Let_def)

lemma date_filters_verdict:
  assumes "curmonth s = curmonth st" "monthmask s = monthmask st"
    "curweek s = curweek st" "weekmask s = weekmask st"
  shows "fst (date_filters p s D) = date_passes p st D
     \<and> fst (snd (date_filters p s D)) = expected_filters p st D"
proof -
  obtain m s1 where m: "check_month p s D = (m, s1)" by (cases "check_month p s D")
  obtain w s2 where w: "check_week p s1 D = (w, s2)" by (cases "check_week p s1 D")
  have m': "fst (check_month p st D) = m"
    using check_month_verdict [OF assms(1,2), of p D] m by simp
  have "curweek s1 = curweek st" "weekmask s1 = weekmask st"
    using check_month_frame [OF m] assms(3,4) by simp_all
  then have w': "fst (check_week p st D) = w"
    using check_week_verdict [of s1 st p D] w by simp
  show ?thesis
    using m w m' w'
    by (auto simp add: date_filters_def date_passes_def expected_filters_def
        split: option.splits)
qed




lemma final_state_Nil [simp]: "final_state st [] = st"
  by (simp add: final_state_def)

lemma fire_returns:
  assumes "0 \<le> p_repeat p"
  shows "\<exists>st'. fire p st d D eos dwhen = Some st'"
proof (cases "p_repeat p = 0")
  case True
  then show ?thesis by (simp add: fire_no_repeat)
next
  case False
  with assms have pos: "0 < p_repeat p" by simp
  define E where "E = (if nexteos st < d then getnexteos (tzdata st) D eos else nexteos st)"
  from repeat_loop_terminates [OF pos] obtain y where
    y: "repeat_loop (p_repeat p) E d dwhen = Some y" by blast
  then show ?thesis
    using False by (cases y) (auto simp add: fire_def Let_def E_def)
qed

lemma awaiting_resolve:
  assumes "awaiting p st D s dt" and "date_of dt = D"
  obtains evs s2 s3 where
    "date_rollover p (session_rollover s dt D eos) D = (True, evs, s2)"
    "resolve_when p s2 D = (target_of p st D, trigger_of p st D, s3)"
    "lastcall s3 \<noteq> Some D" "tzdata s3 = tzdata st" "rstwhen s3 = rstwhen st"
    "trigger s3 = Some (target_of p st D, trigger_of p st D)" "D \<le> curdate s3"
proof -
  let ?s1 = "session_rollover s dt D eos"
  from assms(1) have a: "lastcall s \<noteq> Some D" "tzdata s = tzdata st" "rstwhen s = rstwhen st"
    "nexteos s < dt \<or> trigger s = None \<and> cur_when s = rstwhen s
       \<or> trigger s = Some (target_of p st D, trigger_of p st D)"
    "curdate s < D \<longrightarrow> date_passes p s D"
    by (auto simp add: awaiting_def)
  have s1: "lastcall ?s1 \<noteq> Some D" "tzdata ?s1 = tzdata st" "rstwhen ?s1 = rstwhen st"
    "curdate ?s1 = curdate s"
    "trigger ?s1 = None \<and> cur_when ?s1 = rstwhen st
       \<or> trigger ?s1 = Some (target_of p st D, trigger_of p st D)"
    using a by (auto simp add: session_rollover_def reset_when_def)
  obtain ret evs s2 where dr: "date_rollover p ?s1 D = (ret, evs, s2)"
    by (cases "date_rollover p ?s1 D") auto
  have ret: "ret"
  proof (cases "curdate s < D")
    case True
    then have "fst (date_filters p (?s1\<lparr>curdate := D\<rparr>) D) = date_passes p s D"
      using date_filters_verdict [of "?s1\<lparr>curdate := D\<rparr>" s p D]
        session_rollover_frame [of s dt D eos] by simp
    with True a(5) dr s1(4) show ?thesis by (simp add: date_rollover_def)
  next
    case False
    with dr s1(4) show ?thesis by (simp add: date_rollover_def)
  qed
  have s2: "lastcall s2 \<noteq> Some D" "tzdata s2 = tzdata st" "rstwhen s2 = rstwhen st"
    "D \<le> curdate s2"
    "trigger s2 = None \<and> cur_when s2 = rstwhen st
       \<or> trigger s2 = Some (target_of p st D, trigger_of p st D)"
    using date_rollover_frame [OF dr] s1 by (auto split: if_splits)
  obtain dwhen dtwhen s3 where rw: "resolve_when p s2 D = (dwhen, dtwhen, s3)"
    by (cases "resolve_when p s2 D") auto
  have "dwhen = target_of p st D \<and> dtwhen = trigger_of p st D"
    using rw s2(2,3,5)
    by (auto simp add: resolve_when_def target_of_def trigger_of_def Let_def)
  with rw have rw': "resolve_when p s2 D = (target_of p st D, trigger_of p st D, s3)" by simp
  show ?thesis
    using that [of evs s2 s3] dr ret rw' resolve_when_frame [OF rw'] s2 by simp
qed

lemma awaiting_early:
  assumes "awaiting p st D s dt" and "date_of dt = D" and "dt < trigger_of p st D"
  shows "\<exists>evs s'. check p s dt eos = Some (False, evs, s')
           \<and> trigger s' = Some (target_of p st D, trigger_of p st D)
           \<and> (\<forall>dt'. awaiting p st D s' dt')"
proof -
  from assms(1,2) obtain evs s2 s3 where r:
    "date_rollover p (session_rollover s dt D eos) D = (True, evs, s2)"
    "resolve_when p s2 D = (target_of p st D, trigger_of p st D, s3)"
    "lastcall s3 \<noteq> Some D" "tzdata s3 = tzdata st" "rstwhen s3 = rstwhen st"
    "trigger s3 = Some (target_of p st D, trigger_of p st D)" "D \<le> curdate s3"
    by (rule awaiting_resolve [where eos = eos])
  from assms(1) have "lastcall s \<noteq> Some D" by (simp add: awaiting_def)
  then have "check p s dt eos = Some (False, evs, s3)"
    using assms(2,3) r(1,2) by (simp add: check_def Let_def)
  moreover have "\<forall>dt'. awaiting p st D s3 dt'"
    using r(3-7) by (simp add: awaiting_def)
  ultimately show ?thesis using r(6) by blast
qed

lemma awaiting_fire:
  assumes "awaiting p st D s dt" and "date_of dt = D" and "trigger_of p st D \<le> dt"
  shows "case check p s dt eos of
           None \<Rightarrow> p_repeat p < 0
         | Some r \<Rightarrow> fst r \<and> lastwhen (snd (snd r)) = Some (target_of p st D)"
proof -
  from assms(1,2) obtain evs s2 s3 where r:
    "date_rollover p (session_rollover s dt D eos) D = (True, evs, s2)"
    "resolve_when p s2 D = (target_of p st D, trigger_of p st D, s3)"
    by (rule awaiting_resolve [where eos = eos])
  from assms(1) have "lastcall s \<noteq> Some D" by (simp add: awaiting_def)
  then have c: "check p s dt eos =
      (case fire p s3 dt D eos (target_of p st D) of None \<Rightarrow> None
       | Some s4 \<Rightarrow> Some (True, evs, s4))"
    using assms(2,3) r(1,2) by (simp add: check_def Let_def)
  show ?thesis
  proof (cases "fire p s3 dt D eos (target_of p st D)")
    case None
    with fire_returns [of p s3 dt D eos "target_of p st D"] have "p_repeat p < 0"
      by (cases "0 \<le> p_repeat p") auto
    with None c show ?thesis by simp
  next
    case (Some s4)
    with c fire_frame [OF Some] show ?thesis by simp
  qed
qed

lemma lastcall_le_refl [simp]: "lastcall_le a a"
  by (simp add: lastcall_le_def split: option.splits)

lemma lastcall_monotone_run:
  assumes "sorted (map fst xs)"
    and "\<forall>x\<in>set xs. \<forall>c. lastcall st = Some c \<longrightarrow> c \<le> date_of (fst x)"
    and "run p st xs = Some rs"
  shows "lastcall_monotone st xs rs"
  using assms
proof (induction xs arbitrary: st rs)
  case Nil
  then show ?case by simp
next
  case (Cons x xs)
  from Cons.prems(3) obtain b evs st' rs' where
    r: "check p st (fst x) (snd x) = Some (b, evs, st')" "run p st' xs = Some rs'"
    "rs = (b, evs, st') # rs'"
    by (rule run_ConsE)
  let ?D = "date_of (fst x)"
  have before: "\<forall>c. lastcall st = Some c \<longrightarrow> c \<le> ?D"
    using Cons.prems(2) by simp
  have later: "\<forall>y\<in>set xs. ?D \<le> date_of (fst y)"
    using Cons.prems(1) by (auto intro: date_of_mono)
  have cases: "lastcall st' = lastcall st \<or> lastcall st' = Some ?D
      \<or> (lastcall st' = None \<and> nexteos st < fst x)"
    using check_lastcall_cases [OF r(1)] .
  have step: "lastcall_le (lastcall st) (lastcall st')
      \<or> lastcall st' = None \<and> nexteos st < fst x"
    using cases before by (auto simp add: lastcall_le_def split: option.splits)
  have "\<forall>y\<in>set xs. \<forall>c. lastcall st' = Some c \<longrightarrow> c \<le> date_of (fst y)"
    using cases later Cons.prems(2) by fastforce
  moreover have "sorted (map fst xs)"
    using Cons.prems(1) by simp
  ultimately have "lastcall_monotone st' xs rs'"
    using Cons.IH r(2) by blast
  with step r(3) show ?case by simp
qed

lemma date_rollover_session_new:
  assumes "curdate st < D"
    and "date_rollover p (session_rollover st dt D eos) D = (ret, evs, s2)"
  shows "ret = date_passes p st D \<and> evs = expected_filters p st D"
proof -
  let ?s1 = "session_rollover st dt D eos"
  have "fst (date_filters p (?s1\<lparr>curdate := D\<rparr>) D) = date_passes p st D
      \<and> fst (snd (date_filters p (?s1\<lparr>curdate := D\<rparr>) D)) = expected_filters p st D"
    using date_filters_verdict [of "?s1\<lparr>curdate := D\<rparr>" st p D]
      session_rollover_frame [of st dt D eos] by simp
  moreover have "date_filters p (?s1\<lparr>curdate := D\<rparr>) D = (ret, evs, s2)"
    using assms session_rollover_frame [of st dt D eos] by (simp add: date_rollover_def)
  ultimately show ?thesis by simp
qed

lemma vetoed_not_passes: "vetoed p D \<Longrightarrow> \<not> date_passes p st D"
  by (auto simp add: vetoed_def date_passes_def split: option.splits)

lemma veto_step:
  assumes kept: "veto_kept p st" and bound: "curdate st \<le> max date_min (date_of dt)"
    and c: "check p st dt eos = Some (b, evs, st')"
  shows "veto_kept p st' \<and> curdate st' \<le> max date_min (date_of dt)
         \<and> (vetoed p (date_of dt) \<and> date_min < date_of dt \<longrightarrow> \<not> b)"
proof -
  let ?D = "date_of dt"
  let ?s1 = "session_rollover st dt ?D eos"
  have cd: "curdate st' = (if lastcall st \<noteq> Some ?D \<and> curdate st < ?D then ?D else curdate st)"
    using check_curdate [OF c] .
  have b2: "curdate st' \<le> max date_min ?D"
    using cd bound by auto
  have impossible: False
    if "lastcall st \<noteq> Some ?D" "date_rollover p ?s1 ?D = (True, evs, s2)"
      "vetoed p (curdate st')" "date_min < curdate st'" for s2
  proof (cases "curdate st < ?D")
    case True
    have "date_passes p st ?D"
      using date_rollover_session_new [OF True that(2)] by simp
    moreover have "curdate st' = ?D" using cd True that(1) by simp
    ultimately show False using that(3) vetoed_not_passes by auto
  next
    case False
    then have same: "curdate st' = curdate st" using cd by simp
    with that(4) bound False have "curdate st = ?D" by auto
    with kept that(3,4) same have "lastcall st = Some ?D" by (simp add: veto_kept_def)
    with that(1) show False by simp
  qed
  from c have "veto_kept p st' \<and> (vetoed p ?D \<and> date_min < ?D \<longrightarrow> \<not> b)"
  proof (cases rule: check_cases)
    case guard
    with kept show ?thesis by simp
  next
    case (reject s2)
    have "lastcall st' = Some ?D" using reject(4) by (simp add: reset_when_def)
    moreover have "date_min < curdate st' \<longrightarrow> curdate st' = ?D"
      using cd reject(1) bound by auto
    ultimately show ?thesis using reject(3) by (simp add: veto_kept_def)
  next
    case (early s2 dwhen dtwhen)
    have k: "veto_kept p st'"
      using impossible [OF early(1,2)] by (auto simp add: veto_kept_def)
    have "\<not> (vetoed p ?D \<and> date_min < ?D)"
    proof
      assume v: "vetoed p ?D \<and> date_min < ?D"
      have "curdate st' = ?D" using cd bound v early(1) by auto
      with impossible [OF early(1,2)] v show False by simp
    qed
    with k show ?thesis by blast
  next
    case (fired s2 dwhen dtwhen s3)
    have k: "veto_kept p st'"
      using impossible [OF fired(1,2)] by (auto simp add: veto_kept_def)
    have "\<not> (vetoed p ?D \<and> date_min < ?D)"
    proof
      assume v: "vetoed p ?D \<and> date_min < ?D"
      have "curdate st' = ?D" using cd bound v fired(1) by auto
      with impossible [OF fired(1,2)] v show False by simp
    qed
    with k show ?thesis by blast
  qed
  with b2 show ?thesis by simp
qed

lemma veto_run:
  assumes "sorted (map fst xs)" and "veto_kept p st"
    and "\<forall>x\<in>set xs. curdate st \<le> max date_min (date_of (fst x))"
    and "run p st xs = Some rs" and "i < length xs"
    and "vetoed p (date_of (fst (xs ! i)))" and "date_min < date_of (fst (xs ! i))"
  shows "\<not> fst (rs ! i)"
  using assms
proof (induction xs arbitrary: st rs i)
  case Nil
  then show ?case by simp
next
  case (Cons x xs)
  from Cons.prems(4) obtain b evs st' rs' where
    r: "check p st (fst x) (snd x) = Some (b, evs, st')" "run p st' xs = Some rs'"
    "rs = (b, evs, st') # rs'"
    by (rule run_ConsE)
  let ?D = "date_of (fst x)"
  have bound: "curdate st \<le> max date_min ?D" using Cons.prems(3) by simp
  from veto_step [OF Cons.prems(2) bound r(1)] have
    s: "veto_kept p st'" "curdate st' \<le> max date_min ?D"
    "vetoed p ?D \<and> date_min < ?D \<longrightarrow> \<not> b" by simp_all
  show ?case
  proof (cases i)
    case 0
    with Cons.prems(6,7) s(3) r(3) show ?thesis by simp
  next
    case (Suc j)
    have later: "\<forall>y\<in>set xs. ?D \<le> date_of (fst y)"
      using Cons.prems(1) by (auto intro: date_of_mono)
    have b': "\<forall>y\<in>set xs. curdate st' \<le> max date_min (date_of (fst y))"
      using s(2) later by fastforce
    have "\<not> fst (rs' ! j)"
      using Cons.IH [OF _ s(1) b' r(2), of j] Cons.prems(1,5,6,7) Suc by simp
    with r(3) Suc show ?thesis by simp
  qed
qed

subsection \<open>Repeats within a session\<close>



lemma fired_instants_Nil [simp]: "fired_instants [] = []"
  by (simp add: fired_instants_def)


















lemma run_same_fired:
  assumes "run p s xs = Some rs"
  shows "\<exists>rs'. run p s xs = Some rs' \<and> fired_instants rs' = fired_instants rs"
  using assms by simp


subsection \<open>The binary search, the mask and \<^verbatim>\<open>start\<close>\<close>

text \<open>
  The searches stay within \<open>lo\<close> and the length of the list, so that the loop of
  \<^verbatim>\<open>popleft\<close> never meets an empty deque. For the same reason the test
  \<^verbatim>\<open>bisect_right(mask, dday, lo=dc) > 0\<close> holds whenever \<open>dc > 0\<close>: a day after a skipped
  entry of the mask passes the month filter, with or without carry
  (\<open>check_month_skipped_day_passes\<close>). Every state \<^verbatim>\<open>start\<close> returns is a \<open>started\<close> one.
\<close>

lemma bisect_left_loop_bounds:
  "lo \<le> hi \<Longrightarrow> lo \<le> bisect_left_loop a x lo hi \<and> bisect_left_loop a x lo hi \<le> hi"
proof (induction a x lo hi rule: bisect_left_loop.induct)
  case (1 a x lo hi)
  show ?case
  proof (cases "lo < hi")
    case True
    then have m: "lo \<le> (lo + hi) div 2" "(lo + hi) div 2 < hi" by simp_all
    show ?thesis
    proof (cases "a ! ((lo + hi) div 2) < x")
      case lt: True
      from "1.IH"(1) [OF True lt] m have
        "(lo + hi) div 2 + 1 \<le> bisect_left_loop a x ((lo + hi) div 2 + 1) hi
         \<and> bisect_left_loop a x ((lo + hi) div 2 + 1) hi \<le> hi" by simp
      moreover have "bisect_left_loop a x lo hi
          = bisect_left_loop a x ((lo + hi) div 2 + 1) hi"
        using True lt by (subst bisect_left_loop.simps) simp
      ultimately show ?thesis using m by simp
    next
      case ge: False
      from "1.IH"(2) [OF True ge] m have
        "lo \<le> bisect_left_loop a x lo ((lo + hi) div 2)
         \<and> bisect_left_loop a x lo ((lo + hi) div 2) \<le> (lo + hi) div 2" by simp
      moreover have "bisect_left_loop a x lo hi = bisect_left_loop a x lo ((lo + hi) div 2)"
        using True ge by (subst bisect_left_loop.simps) simp
      ultimately show ?thesis using m by simp
    qed
  next
    case False
    then have "bisect_left_loop a x lo hi = lo"
      by (subst bisect_left_loop.simps) simp
    with "1.prems" show ?thesis by simp
  qed
qed

lemma bisect_right_loop_bounds:
  "lo \<le> hi \<Longrightarrow> lo \<le> bisect_right_loop a x lo hi \<and> bisect_right_loop a x lo hi \<le> hi"
proof (induction a x lo hi rule: bisect_right_loop.induct)
  case (1 a x lo hi)
  show ?case
  proof (cases "lo < hi")
    case True
    then have m: "lo \<le> (lo + hi) div 2" "(lo + hi) div 2 < hi" by simp_all
    show ?thesis
    proof (cases "x < a ! ((lo + hi) div 2)")
      case lt: True
      from "1.IH"(1) [OF True lt] m have
        "lo \<le> bisect_right_loop a x lo ((lo + hi) div 2)
         \<and> bisect_right_loop a x lo ((lo + hi) div 2) \<le> (lo + hi) div 2" by simp
      moreover have "bisect_right_loop a x lo hi = bisect_right_loop a x lo ((lo + hi) div 2)"
        using True lt by (subst bisect_right_loop.simps) simp
      ultimately show ?thesis using m by simp
    next
      case ge: False
      from "1.IH"(2) [OF True ge] m have
        "(lo + hi) div 2 + 1 \<le> bisect_right_loop a x ((lo + hi) div 2 + 1) hi
         \<and> bisect_right_loop a x ((lo + hi) div 2 + 1) hi \<le> hi" by simp
      moreover have "bisect_right_loop a x lo hi
          = bisect_right_loop a x ((lo + hi) div 2 + 1) hi"
        using True ge by (subst bisect_right_loop.simps) simp
      ultimately show ?thesis using m by simp
    qed
  next
    case False
    then have "bisect_right_loop a x lo hi = lo"
      by (subst bisect_right_loop.simps) simp
    with "1.prems" show ?thesis by simp
  qed
qed

lemma bisect_left_le_length: "bisect_left a x 0 \<le> length a"
  using bisect_left_loop_bounds [of 0 "length a" a x] by (simp add: bisect_left_def)

lemma bisect_right_ge_lo: "lo \<le> length a \<Longrightarrow> lo \<le> bisect_right a x lo"
  using bisect_right_loop_bounds [of lo "length a" a x] by (simp add: bisect_right_def)

lemma check_month_skipped_day_passes:
  assumes "p_monthdays p \<noteq> []" and "month_of D = curmonth st"
    and "0 < bisect_left (monthmask st) (day_of D) 0"
    and "bisect_left (monthmask st) (day_of D) 0 < length (monthmask st)"
  shows "fst (check_month p st D)"
  using assms bisect_right_ge_lo [of "bisect_left (monthmask st) (day_of D) 0" "monthmask st" "day_of D"]
  by (simp add: check_month_def Let_def)

lemma start_Inr:
  "start p data = Inr st \<Longrightarrow> \<exists>rst. st = started rst (tzdata st)"
  by (auto simp add: start_def Let_def started_def reset_when_def
      split: when_param.splits if_splits timesource.splits)

section \<open>Repeats within a session\<close>




section \<open>The day-filter mask with carry\<close>

text \<open>
  Claim C2 (day-filter carry-forward). With \<^verbatim>\<open>monthdays = [5, 15, 25]\<close> and carry enabled,
  a first evaluation of the month on day 10 returns true, but it leaves the mask \<open>[25]\<close>
  and not \<open>[15, 25]\<close>: \<^verbatim>\<open>bisect_right(mask, dday, lo=dc) > 0\<close> holds whenever \<open>dc > 0\<close>, so
  day 15 is popped with day 5, and the evaluation on day 15 (2024-01-15) returns false.
\<close>

theorem check_month_carry_day10_pops_15:
  "check_month (monthly True) (started 0 NoTz) 738895
     = (True, (started 0 NoTz)\<lparr>curmonth := 1, monthmask := [25]\<rparr>)
   \<and> day_of 738895 = 10
   \<and> fst (check_month (monthly True)
             ((started 0 NoTz)\<lparr>curmonth := 1, monthmask := [25]\<rparr>) 738900) = False
   \<and> day_of 738900 = 15"
proof -
  have cal: "day_of 738895 = 10" "month_of 738895 = 1" "day_of 738900 = 15"
    "month_of 738900 = 1"
    by (simp_all add: calendar_defs Let_def)
  have bis: "bisect_left [5, 15, 25] 10 0 = Suc 0" "bisect_right [5, 15, 25] 10 (Suc 0) = Suc 0"
    "bisect_left [25] 15 0 = 0" "bisect_right [25] 15 0 = 0"
    by (simp_all add: bisect_defs)
  show ?thesis
    by (simp add: check_month_def monthly_def defaults_def started_def reset_when_def
        cal bis popleft_n_drop Let_def)
qed

section \<open>The day-filter mask without carry\<close>

text \<open>
  Claim C3 (day-filter carry disabled). With \<^verbatim>\<open>monthdays = [5, 15, 25]\<close> and carry
  disabled, a first evaluation of the month on day 10 returns true although 10 is not in
  the filter: with \<open>dc = 1\<close> the test \<^verbatim>\<open>bisect_right(mask, dday, lo=dc) > 0\<close> is true.
\<close>

theorem check_month_nocarry_day10_true:
  "fst (check_month (monthly False) (started 0 NoTz) 738895) = True
   \<and> day_of 738895 = 10 \<and> 10 \<notin> set (p_monthdays (monthly False))
   \<and> p_monthcarry (monthly False) = False"
proof -
  have cal: "day_of 738895 = 10" "month_of 738895 = 1"
    by (simp_all add: calendar_defs Let_def)
  have bis: "bisect_left [5, 15, 25] 10 0 = Suc 0" "bisect_right [5, 15, 25] 10 (Suc 0) = Suc 0"
    by (simp_all add: bisect_defs)
  show ?thesis
    by (simp add: check_month_def monthly_def defaults_def started_def reset_when_def
        cal bis popleft_n_drop Let_def)
qed

section \<open>Fires of a non-repeating timer\<close>

text \<open>
  Claim C4 (at most one non-repeating fire per date). With \<^verbatim>\<open>repeat\<close> zero, from any
  state, a sequence of calls whose timestamps all fall on one calendar date returns (every
  call does) and at most one of the calls returns true.
\<close>

theorem no_repeat_at_most_once:
  assumes "p_repeat p = 0" and "\<forall>x\<in>set xs. date_of (num2date None (fst x)) = D"
  shows "\<exists>rs. run p st xs = Some rs \<and> length rs = length xs \<and> length (filter fst rs) \<le> 1"
  using assms(2)
proof (induction xs arbitrary: st)
  case Nil
  then show ?case by simp
next
  case (Cons x xs)
  obtain b evs st' where r: "check p st (fst x) (snd x) = Some (b, evs, st')"
    using check_no_repeat_returns [OF assms(1)] by (metis prod_cases3)
  from Cons.prems have dx: "date_of (fst x) = D" and rest: "\<forall>y\<in>set xs. date_of (fst y) = D"
    by simp_all
  show ?case
  proof (cases b)
    case True
    with r have "lastcall st' = Some D"
      using check_no_repeat_true [OF assms(1), of st "fst x" "snd x" evs st'] dx by simp
    then have "run p st' xs = Some (map (\<lambda>x. (False, [], st')) xs)"
      using rest by (rule run_all_lastcall)
    with r True show ?thesis
      by (simp add: filter_map comp_def)
  next
    case False
    from Cons.IH [of st'] rest obtain rs where
      "run p st' xs = Some rs" "length rs = length xs" "length (filter fst rs) \<le> 1"
      by auto
    with r False show ?thesis by simp
  qed
qed

text \<open>
  Witness of C4: the daily timer at 09:00 sampled at 08:00, 09:00, 10:00 and 11:00 of
  2024-01-10 fires on the second sample only.
\<close>

theorem no_repeat_at_most_once_witness:
  "map fst (the (run daily9 (started (hms 9 0 0) NoTz)
       (day_samples 738895 [hms 8 0 0, hms 9 0 0, hms 10 0 0, hms 11 0 0])))
     = [False, True, False, False]
   \<and> length (filter fst (the (run daily9 (started (hms 9 0 0) NoTz)
       (day_samples 738895 [hms 8 0 0, hms 9 0 0, hms 10 0 0, hms 11 0 0])))) \<le> 1"
proof -
  let ?xs = "day_samples 738895 [hms 8 0 0, hms 9 0 0, hms 10 0 0, hms 11 0 0]"
  have rep: "p_repeat daily9 = 0"
    by (simp add: daily9_def defaults_def)
  have dates: "\<forall>x\<in>set ?xs. date_of (num2date None (fst x)) = 738895"
    by (simp add: day_samples_def time_defs)
  from no_repeat_at_most_once [OF rep dates, of "started (hms 9 0 0) NoTz"]
  obtain rs where rs: "run daily9 (started (hms 9 0 0) NoTz) ?xs = Some rs"
    "length (filter fst rs) \<le> 1" by auto
  have "map fst (the (run daily9 (started (hms 9 0 0) NoTz) ?xs)) = [False, True, False, False]"
    by (simp add: day_samples_def daily9_def check_defs time_defs defaults_def Let_def)
  with rs show ?thesis by simp
qed

section \<open>The date last called\<close>

text \<open>
  Claim C5 (\<^verbatim>\<open>_lastcall\<close> never moves backward), as stated, fails: the daily timer at
  09:00 fires on 2024-01-10 at 10:00, which sets \<^verbatim>\<open>_lastcall\<close> to that date, and the next
  sample, 2024-01-11 at 08:00, is past the end of the session, so that \<^verbatim>\<open>_reset_when()\<close>
  puts \<^verbatim>\<open>_lastcall\<close> back to \<^verbatim>\<open>datetime.min\<close>.
\<close>

theorem lastcall_moves_backward:
  "map (\<lambda>r. lastcall (snd (snd r)))
     (the (run daily9 (started (hms 9 0 0) NoTz)
        [(combine 738895 (hms 10 0 0), 0), (combine 738896 (hms 8 0 0), 0)]))
     = [Some 738895, None]
   \<and> \<not> lastcall_le (Some 738895) None
   \<and> sorted (map fst [(combine 738895 (hms 10 0 0), 0 :: datetime),
                        (combine 738896 (hms 8 0 0), 0)])"
  by (simp add: daily9_def check_defs time_defs defaults_def lastcall_le_def Let_def)

text \<open>
  Claim C5, amended. Along every sequence of calls with non-decreasing timestamps after
  \<^verbatim>\<open>start\<close>, each call leaves \<^verbatim>\<open>_lastcall\<close> at or above its value before the call, or
  resets it to \<^verbatim>\<open>datetime.min\<close>, which only a call whose sample is past the cached end of
  session does.
\<close>

theorem lastcall_backward_only_by_reset:
  assumes "sorted (map fst xs)" and "run p (started rst tz) xs = Some rs"
  shows "lastcall_monotone (started rst tz) xs rs"
  using assms(1) _ assms(2)
  by (rule lastcall_monotone_run) (simp add: started_def reset_when_def)

text \<open>Witness of C5, amended: the two samples of the counterexample.\<close>

theorem lastcall_backward_only_by_reset_witness:
  "lastcall_monotone (started (hms 9 0 0) NoTz)
     [(combine 738895 (hms 10 0 0), 0), (combine 738896 (hms 8 0 0), 0)]
     (the (run daily9 (started (hms 9 0 0) NoTz)
        [(combine 738895 (hms 10 0 0), 0), (combine 738896 (hms 8 0 0), 0)]))"
proof -
  let ?xs = "[(combine 738895 (hms 10 0 0), 0 :: datetime), (combine 738896 (hms 8 0 0), 0)]"
  have sorted: "sorted (map fst ?xs)"
    by (simp add: time_defs)
  have "map fst (the (run daily9 (started (hms 9 0 0) NoTz) ?xs)) = [True, False]
      \<and> run daily9 (started (hms 9 0 0) NoTz) ?xs \<noteq> None"
    by (simp add: daily9_def check_defs time_defs defaults_def Let_def)
  then obtain rs where rs: "run daily9 (started (hms 9 0 0) NoTz) ?xs = Some rs"
    by auto
  from lastcall_backward_only_by_reset [OF sorted rs] rs show ?thesis by simp
qed

section \<open>The veto of a date\<close>

text \<open>
  Claim C6 (the veto persists for the date), as stated, fails on the minimum date: a
  started timer has \<^verbatim>\<open>_curdate = date.min\<close>, so that a first sample on 0001-01-01 is not a
  date change and the filters, \<^verbatim>\<open>allow\<close> among them, are never consulted for that date.
  With an \<^verbatim>\<open>allow\<close> that refuses every date, the daily timer at 09:00 fires on the sample
  0001-01-01 12:00.
\<close>

theorem veto_skipped_on_date_min:
  "map_option fst
     (check never_allowed (started (hms 9 0 0) NoTz) (combine date_min (hms 12 0 0)) 0)
     = Some True
   \<and> vetoed never_allowed (date_of (combine date_min (hms 12 0 0)))"
  by (simp add: never_allowed_def vetoed_def check_defs time_defs defaults_def Let_def)

text \<open>
  Claim C6, amended. Along every sequence of calls with non-decreasing timestamps after
  \<^verbatim>\<open>start\<close>, every call whose date is after the minimum date and is refused by the
  \<^verbatim>\<open>allow\<close> callable returns false, whatever the target time, the offset, the repeat and
  the time source are.
\<close>

theorem veto_holds_for_the_date:
  assumes "sorted (map fst xs)" and "run p (started rst tz) xs = Some rs"
    and "i < length xs" and "p_allow p = Some allow"
    and "\<not> allow (date_of (fst (xs ! i)))" and "date_min < date_of (fst (xs ! i))"
  shows "\<not> fst (rs ! i)"
proof -
  have k: "veto_kept p (started rst tz)"
    by (simp add: veto_kept_def started_def reset_when_def)
  have b: "\<forall>x\<in>set xs. curdate (started rst tz) \<le> max date_min (date_of (fst x))"
    by (simp add: started_def reset_when_def)
  have v: "vetoed p (date_of (fst (xs ! i)))"
    using assms(4,5) by (simp add: vetoed_def)
  from veto_run [OF assms(1) k b assms(2,3) v assms(6)] show ?thesis .
qed

text \<open>
  Witness of C6, amended: with an \<^verbatim>\<open>allow\<close> that refuses every date, the samples 08:00
  and 10:00 of 2024-01-10 both return false, although the target 09:00 lies between them.
\<close>

theorem veto_holds_for_the_date_witness:
  "map fst (the (run never_allowed (started (hms 9 0 0) NoTz)
       (day_samples 738895 [hms 8 0 0, hms 10 0 0]))) = [False, False]
   \<and> \<not> fst (the (run never_allowed (started (hms 9 0 0) NoTz)
       (day_samples 738895 [hms 8 0 0, hms 10 0 0])) ! 1)"
proof -
  let ?xs = "day_samples 738895 [hms 8 0 0, hms 10 0 0]"
  have sorted: "sorted (map fst ?xs)"
    by (simp add: day_samples_def time_defs)
  have cal: "day_of 738895 = 10" "month_of 738895 = 1"
    by (simp_all add: calendar_defs Let_def)
  have ev: "map fst (the (run never_allowed (started (hms 9 0 0) NoTz) ?xs)) = [False, False]
      \<and> run never_allowed (started (hms 9 0 0) NoTz) ?xs \<noteq> None"
    by (simp add: day_samples_def never_allowed_def check_defs time_defs defaults_def Let_def)
  then obtain rs where rs: "run never_allowed (started (hms 9 0 0) NoTz) ?xs = Some rs"
    by auto
  have i: "1 < length ?xs" by (simp add: day_samples_def)
  have allow: "p_allow never_allowed = Some (\<lambda>d. False)"
    by (simp add: never_allowed_def)
  have late: "date_min < date_of (fst (?xs ! 1))"
    by (simp add: day_samples_def time_defs)
  from veto_holds_for_the_date [OF sorted rs i allow _ late] rs ev show ?thesis by simp
qed

section \<open>The date rollover\<close>



section \<open>The trigger of a date\<close>

text \<open>
  Claim C8 (offset correctness and target-time resolution). Take a date \<open>D\<close>, a state in
  which the date is not marked as called and either still current or passing the
  filters, and samples of \<open>D\<close> that are past the end of session the state has cached (so
  that the first of them drops any cached trigger). The trigger of the date is
  \<open>trigger_of p st D\<close>: the localization, by the time source, of \<open>D\<close> combined with the
  target time plus the offset. Every call before it (the samples \<open>pre\<close>) returns false and
  leaves that trigger cached; the first call at or after it (the sample \<open>y\<close>) returns
  true and records the wall-clock target, unless \<^verbatim>\<open>repeat\<close> is negative and the call
  does not return.
\<close>

theorem first_fire_at_trigger:
  assumes dates: "\<forall>x\<in>set (pre @ [y]). date_of (fst x) = D"
    and fresh: "\<forall>x\<in>set (pre @ [y]). nexteos st < fst x"
    and before: "\<forall>x\<in>set pre. fst x < trigger_of p st D"
    and reached: "trigger_of p st D \<le> fst y"
    and guard: "lastcall st \<noteq> Some D"
    and passes: "curdate st < D \<longrightarrow> date_passes p st D"
  shows "\<exists>rs. run p st pre = Some rs \<and> length rs = length pre
          \<and> (\<forall>r\<in>set rs. \<not> fst r
                \<and> trigger (snd (snd r)) = Some (target_of p st D, trigger_of p st D))
          \<and> (case check p (final_state st rs) (fst y) (snd y) of
                None \<Rightarrow> p_repeat p < 0
              | Some r \<Rightarrow> fst r \<and> lastwhen (snd (snd r)) = Some (target_of p st D))"
proof -
  have "\<exists>rs. run p s pre = Some rs \<and> length rs = length pre
          \<and> (\<forall>r\<in>set rs. \<not> fst r
                \<and> trigger (snd (snd r)) = Some (target_of p st D, trigger_of p st D))
          \<and> (case check p (final_state s rs) (fst y) (snd y) of
                None \<Rightarrow> p_repeat p < 0
              | Some r \<Rightarrow> fst r \<and> lastwhen (snd (snd r)) = Some (target_of p st D))"
    if "\<forall>x\<in>set (pre @ [y]). awaiting p st D s (fst x)" for s
    using that dates before
  proof (induction pre arbitrary: s)
    case Nil
    then have "awaiting p st D s (fst y)" "date_of (fst y) = D" by simp_all
    from awaiting_fire [OF this reached, of "snd y"] show ?case
      by (intro exI [of _ "[]"]) simp
  next
    case (Cons x pre)
    then have "awaiting p st D s (fst x)" "date_of (fst x) = D" "fst x < trigger_of p st D"
      by simp_all
    from awaiting_early [OF this, of "snd x"] obtain evs s' where
      c: "check p s (fst x) (snd x) = Some (False, evs, s')"
      "trigger s' = Some (target_of p st D, trigger_of p st D)"
      "\<forall>dt'. awaiting p st D s' dt'" by blast
    have p1: "\<forall>x\<in>set (pre @ [y]). awaiting p st D s' (fst x)"
      using c(3) by simp
    have p2: "\<forall>x\<in>set (pre @ [y]). date_of (fst x) = D"
      using Cons.prems(2) by simp
    have p3: "\<forall>x\<in>set pre. fst x < trigger_of p st D"
      using Cons.prems(3) by simp
    from Cons.IH [OF p1 p2 p3] obtain rs where
      rs: "run p s' pre = Some rs" "length rs = length pre"
      "\<forall>r\<in>set rs. \<not> fst r \<and> trigger (snd (snd r)) = Some (target_of p st D, trigger_of p st D)"
      "case check p (final_state s' rs) (fst y) (snd y) of
         None \<Rightarrow> p_repeat p < 0
       | Some r \<Rightarrow> fst r \<and> lastwhen (snd (snd r)) = Some (target_of p st D)"
      by blast
    show ?case
      using c(1,2) rs
      by (intro exI [of _ "(False, evs, s') # rs"]) (simp add: final_state_Cons)
  qed
  moreover have "\<forall>x\<in>set (pre @ [y]). awaiting p st D st (fst x)"
    using fresh guard passes by (simp add: awaiting_def)
  ultimately show ?thesis by blast
qed

text \<open>
  Witness of C8: target time 09:00 with an offset of 30 minutes on 2024-01-10. The trigger
  is 09:30; the samples 08:00, 09:00 and 09:29:59 return false and the sample 09:30
  returns true.
\<close>

theorem first_fire_at_trigger_witness:
  "trigger_of daily9_plus30 (started (hms 9 0 0) NoTz) 738895 = combine 738895 (hms 9 30 0)
   \<and> map fst (the (run daily9_plus30 (started (hms 9 0 0) NoTz)
         (day_samples 738895 [hms 8 0 0, hms 9 0 0, hms 9 29 59])))
       = [False, False, False]
   \<and> map_option fst (check daily9_plus30
         (final_state (started (hms 9 0 0) NoTz)
            (the (run daily9_plus30 (started (hms 9 0 0) NoTz)
               (day_samples 738895 [hms 8 0 0, hms 9 0 0, hms 9 29 59]))))
         (combine 738895 (hms 9 30 0)) 0)
       = Some True"
proof -
  let ?p = daily9_plus30 and ?s = "started (hms 9 0 0) NoTz"
  let ?pre = "day_samples 738895 [hms 8 0 0, hms 9 0 0, hms 9 29 59]"
  let ?y = "(combine 738895 (hms 9 30 0), 0 :: datetime)"
  have trig: "trigger_of ?p ?s 738895 = combine 738895 (hms 9 30 0)"
    by (simp add: trigger_of_def target_of_def local_date2num_def daily9_plus30_def
        defaults_def started_def reset_when_def time_defs)
  have dates: "\<forall>x\<in>set (?pre @ [?y]). date_of (fst x) = 738895"
    by (simp add: day_samples_def time_defs)
  have fresh: "\<forall>x\<in>set (?pre @ [?y]). nexteos ?s < fst x"
    by (simp add: day_samples_def started_def reset_when_def time_defs)
  have before: "\<forall>x\<in>set ?pre. fst x < trigger_of ?p ?s 738895"
    unfolding trig by (simp add: day_samples_def time_defs)
  have reached: "trigger_of ?p ?s 738895 \<le> fst ?y"
    unfolding trig by simp
  have guard: "lastcall ?s \<noteq> Some 738895"
    by (simp add: started_def reset_when_def)
  have passes: "curdate ?s < 738895 \<longrightarrow> date_passes ?p ?s 738895"
    by (simp add: date_passes_def check_month_def check_week_def daily9_plus30_def
        defaults_def)
  have rep: "p_repeat ?p = 0"
    by (simp add: daily9_plus30_def defaults_def)
  from first_fire_at_trigger [OF dates fresh before reached guard passes]
  obtain rs where rs: "run ?p ?s ?pre = Some rs"
    "case check ?p (final_state ?s rs) (fst ?y) (snd ?y) of
       None \<Rightarrow> p_repeat ?p < 0
     | Some r \<Rightarrow> fst r \<and> lastwhen (snd (snd r)) = Some (target_of ?p ?s 738895)"
    by blast
  have results: "map fst (the (run ?p ?s ?pre)) = [False, False, False]"
    by (simp add: day_samples_def daily9_plus30_def check_defs time_defs defaults_def Let_def)
  from rs rep have "map_option fst (check ?p (final_state ?s (the (run ?p ?s ?pre)))
      (combine 738895 (hms 9 30 0)) 0) = Some True"
    by (auto split: option.splits)
  with trig results show ?thesis by simp
qed

section \<open>Sampling again after a fire\<close>



section \<open>Rescheduling and the timezone\<close>

text \<open>
  Claim C10 (the rescheduled numeric trigger). With a timezone one hour east of UTC, an
  hourly timer at 09:00 fires on the sample 08:00 UTC (09:00 local) of 2024-01-10 and
  reschedules to the wall-clock time 10:00. The numeric trigger it caches is computed
  without the timezone, 10:00 UTC, while the resolution of line 194 gives 09:00 UTC for
  the same wall-clock time.
\<close>

theorem reschedule_ignores_timezone:
  "map_option (\<lambda>r. (fst r, map_option snd (trigger (snd (snd r)))))
     (check hourly_plus1h (started (hms 9 0 0) (Tz plus1h)) (combine 738895 (hms 8 0 0)) 0)
     = Some (True, Some (combine 738895 (hms 10 0 0)))
   \<and> local_date2num (Tz plus1h) (combine 738895 (hms 10 0 0)) = combine 738895 (hms 9 0 0)
   \<and> combine 738895 (hms 9 0 0) < combine 738895 (hms 10 0 0)"
  by (simp add: check_defs time_defs hourly_plus1h_def plus1h_def defaults_def Let_def)


end
